theory Spec2Isabelle
  imports Main "HOL-Library.Word" "HOL-Library.AList"
begin

section \<open>The application herder: data model\<close>

text \<open>
  The herder of cbft (\<^verbatim>\<open>app_herder.go\<close>) gates index batches and rejects queries
  under memory pressure. Go's \<^verbatim>\<open>int64\<close> and \<^verbatim>\<open>uint64\<close> are both 64-bit words here:
  the conversion \<^verbatim>\<open>int64(x)\<close> keeps the bit pattern, addition and subtraction wrap,
  and only the comparisons differ (\<open><s\<close> for \<^verbatim>\<open>int64\<close>, \<open><\<close> for \<^verbatim>\<open>uint64\<close>).
\<close>

type_synonym u64 = "64 word"

text \<open>An index handle is the \<^verbatim>\<open>interface{}\<close> key of the registry: an opaque identity.\<close>

type_synonym handle = nat

text \<open>
  What lies outside the herder and is only read by it: the three process-wide atomic
  counters of package \<^verbatim>\<open>cbft\<close>, and the memory every engine reports at this instant.
\<close>

record world =
  CurMemoryUsed :: u64
  BatchBytesAdded :: u64
  BatchBytesRemoved :: u64
  engineBytes :: "handle \<Rightarrow> u64"

text \<open>\<^verbatim>\<open>type sizeFunc func(interface{}) uint64\<close>; the callback reads the engine's live state.\<close>

type_synonym sizeFunc = "world \<Rightarrow> handle \<Rightarrow> u64"

record appHerderStats =
  TotWaitingIn :: u64
  TotWaitingOut :: u64
  TotOnBatchExecuteStartBeg :: u64
  TotOnBatchExecuteStartEnd :: u64

text \<open>
  \<open>overQuotaCh\<close> records whether the channel is non-nil. \<open>waiting\<close> is a Go \<^verbatim>\<open>int\<close> that
  counts parked goroutines. The registry \<^verbatim>\<open>map[interface{}]sizeFunc\<close> is an association
  list with one entry per key, written with \<open>AList.update\<close> and \<open>AList.delete\<close>; the
  only read is a wrapping sum, which does not depend on the order.
\<close>

record appHerder =
  memQuota :: u64
  appQuota :: u64
  indexQuota :: u64
  queryQuota :: u64
  overQuotaCh :: bool
  waiting :: int
  indexes :: "(handle \<times> sizeFunc) list"
  runningQueryUsed :: u64
  stats :: appHerderStats

text \<open>What a call does besides changing the herder, in program order.\<close>

datatype event =
    Lock        \<comment> \<open>\<^verbatim>\<open>a.m.Lock()\<close>\<close>
  | Unlock      \<comment> \<open>\<^verbatim>\<open>a.m.Unlock()\<close>\<close>
  | Send        \<comment> \<open>\<^verbatim>\<open>a.overQuotaCh <- struct{}{}\<close>\<close>
  | Wait        \<comment> \<open>\<^verbatim>\<open>a.waitCond.Wait()\<close> is entered: the mutex is released, the caller parks\<close>
  | Wake        \<comment> \<open>\<^verbatim>\<open>a.waitCond.Wait()\<close> returns: the mutex is held again\<close>
  | Broadcast   \<comment> \<open>\<^verbatim>\<open>a.waitCond.Broadcast()\<close>\<close>

datatype error = ErrorSearchReqRejected

section \<open>Memory accounting\<close>

definition indexingMemoryLOCKED :: "appHerder \<Rightarrow> world \<Rightarrow> u64" where
  "indexingMemoryLOCKED a w =
     foldl (\<lambda>rv (index, indexSizeFunc). rv + indexSizeFunc w index) 0 (indexes a)"

definition preIndexingMemoryLOCKED :: "world \<Rightarrow> u64" where
  "preIndexingMemoryLOCKED w = 0 + (BatchBytesAdded w - BatchBytesRemoved w)"

definition overMemQuotaForIndexingLOCKED :: "appHerder \<Rightarrow> world \<Rightarrow> bool" where
  "overMemQuotaForIndexingLOCKED a w =
     (if indexingMemoryLOCKED a w = 0 then False
      else
        let memUsed = CurMemoryUsed w;
            preIndexingMemory = preIndexingMemoryLOCKED w;
            memUsed = memUsed + preIndexingMemory
        in if 0 <s indexQuota a \<and> indexQuota a <s memUsed then True
           else 0 <s appQuota a \<and> appQuota a <s memUsed)"

section \<open>Progress notification\<close>

definition awakeWaitersLOCKED :: "appHerder \<Rightarrow> event list" where
  "awakeWaitersLOCKED a = (if 0 < waiting a then [Broadcast] else [])"

definition awakeWaiters :: "appHerder \<Rightarrow> appHerder \<times> event list" where
  "awakeWaiters a = (a, [Lock] @ awakeWaitersLOCKED a @ [Unlock])"

definition onClose :: "appHerder \<Rightarrow> handle \<Rightarrow> appHerder \<times> event list" where
  "onClose a c =
     (let a' = a\<lparr>indexes := AList.delete c (indexes a)\<rparr>
      in (a', [Lock] @ awakeWaitersLOCKED a' @ [Unlock]))"

definition onMemoryUsedDropped :: "appHerder \<Rightarrow> u64 \<Rightarrow> u64 \<Rightarrow> appHerder \<times> event list" where
  "onMemoryUsedDropped a curMemoryUsed prevMemoryUsed = awakeWaiters a"

definition onPersisterProgress :: "appHerder \<Rightarrow> appHerder \<times> event list" where
  "onPersisterProgress a = awakeWaiters a"

definition onMergerProgress :: "appHerder \<Rightarrow> appHerder \<times> event list" where
  "onMergerProgress a = awakeWaiters a"

section \<open>Query admission\<close>

definition onQueryStart ::
  "appHerder \<Rightarrow> world \<Rightarrow> int \<Rightarrow> u64 \<Rightarrow> error option \<times> appHerder \<times> event list" where
  "onQueryStart a w depth sz =
     (if queryQuota a <s 0 then (None, a, [])
      else if depth = 0 \<and> 0 < runningQueryUsed a then
        let memUsed = CurMemoryUsed w;
            memUsed = memUsed + sz
        in if 0 <s queryQuota a \<and> queryQuota a <s memUsed then
             (Some ErrorSearchReqRejected, a,
              [Lock, Unlock] @ (if overQuotaCh a then [Send] else []))
           else if 0 <s appQuota a \<and> appQuota a <s memUsed then
             (Some ErrorSearchReqRejected, a,
              [Lock, Unlock] @ (if overQuotaCh a then [Send] else []))
           else (None, a\<lparr>runningQueryUsed := runningQueryUsed a + sz\<rparr>, [Lock, Unlock])
      else (None, a\<lparr>runningQueryUsed := runningQueryUsed a + sz\<rparr>, [Lock, Unlock]))"

definition onQueryEnd ::
  "appHerder \<Rightarrow> int \<Rightarrow> u64 \<Rightarrow> error option \<times> appHerder \<times> event list" where
  "onQueryEnd a depth sz =
     (let a' = a\<lparr>runningQueryUsed := runningQueryUsed a - sz\<rparr>
      in (None, a', [Lock] @ awakeWaitersLOCKED a' @ [Unlock]))"

text \<open>
  A sequence of matched pairs: each query starts at depth 0 with its size and ends
  with the same size before the next one starts. Every pair reads its own world.
\<close>

fun queryPairs :: "appHerder \<Rightarrow> (world \<times> u64) list \<Rightarrow> appHerder" where
  "queryPairs a [] = a"
| "queryPairs a ((w, sz) # ps) =
     (case onQueryStart a w 0 sz of
        (r, a1, es) \<Rightarrow>
          (case onQueryEnd a1 0 sz of (r', a2, es') \<Rightarrow> queryPairs a2 ps))"

text \<open>
  Queries that overlap: top-level starts and ends in any order. \<open>live\<close> holds the sizes
  of the admitted queries that have not ended yet; a rejected query never ends, and an
  end is only for a query that is live (the callers pair start and end).
\<close>

datatype qcall = QStart world u64 | QEnd u64

fun queries :: "appHerder \<Rightarrow> u64 list \<Rightarrow> qcall list \<Rightarrow> (appHerder \<times> u64 list) option" where
  "queries a live [] = Some (a, live)"
| "queries a live (QStart w sz # cs) =
     (case onQueryStart a w 0 sz of
        (None, a', es) \<Rightarrow> queries a' (sz # live) cs
      | (Some e, a', es) \<Rightarrow> queries a' live cs)"
| "queries a live (QEnd sz # cs) =
     (if sz \<in> set live then
        (case onQueryEnd a 0 sz of (r, a', es) \<Rightarrow> queries a' (remove1 sz live) cs)
      else None)"

section \<open>The index admission gate\<close>

text \<open>
  \<^verbatim>\<open>onBatchExecuteStart\<close> can park its caller in \<^verbatim>\<open>a.waitCond.Wait()\<close> and can block in
  the channel send, so it is cut at the places where the goroutine can be held up or
  where another goroutine can observe the herder in between. A \<open>point\<close> is where a
  caller of \<^verbatim>\<open>onBatchExecuteStart\<close> stands.
\<close>

datatype point =
    AtLock handle sizeFunc  \<comment> \<open>line 140: \<^verbatim>\<open>TotOnBatchExecuteStartBeg\<close> counted, before \<^verbatim>\<open>a.m.Lock()\<close>\<close>
  | AtSend                  \<comment> \<open>line 158: mutex held, before the send on \<^verbatim>\<open>overQuotaCh\<close>\<close>
  | AtWait                  \<comment> \<open>line 161: mutex held, before \<^verbatim>\<open>a.waitCond.Wait()\<close>\<close>
  | InWait                  \<comment> \<open>parked inside \<^verbatim>\<open>Wait()\<close>, mutex released\<close>
  | Notified                \<comment> \<open>inside \<^verbatim>\<open>Wait()\<close>, woken by a broadcast, mutex not yet retaken\<close>
  | AtEnd                   \<comment> \<open>line 177: mutex released, before \<^verbatim>\<open>TotOnBatchExecuteStartEnd\<close> is counted\<close>
  | Out                     \<comment> \<open>returned\<close>

text \<open>Lines 134 to 138: the bypass for a negative \<open>indexQuota\<close>, then the first counter.\<close>

definition onBatchExecuteStart_entry :: "appHerder \<Rightarrow> handle \<Rightarrow> sizeFunc \<Rightarrow> point \<times> appHerder" where
  "onBatchExecuteStart_entry a c s =
     (if indexQuota a <s 0 then (Out, a)
      else (AtLock c s,
            a\<lparr>stats := (stats a)\<lparr>TotOnBatchExecuteStartBeg :=
                 TotOnBatchExecuteStartBeg (stats a) + 1\<rparr>\<rparr>))"

text \<open>
  Lines 146 to 156 and 170 to 175, mutex held: the head of the \<^verbatim>\<open>for\<close> loop. Over quota,
  the caller is counted as waiting and goes on to the send (if there is a channel) and
  to \<^verbatim>\<open>Wait()\<close>; otherwise it leaves the loop and unlocks.
\<close>

definition onBatchExecuteStart_loop :: "appHerder \<Rightarrow> world \<Rightarrow> point \<times> appHerder \<times> event list" where
  "onBatchExecuteStart_loop a w =
     (if overMemQuotaForIndexingLOCKED a w then
        (if overQuotaCh a then AtSend else AtWait,
         a\<lparr>waiting := waiting a + 1,
           stats := (stats a)\<lparr>TotWaitingIn := TotWaitingIn (stats a) + 1\<rparr>\<rparr>,
         [])
      else (AtEnd, a, [Unlock]))"

text \<open>One step of a caller from the point where it stands, reading the world \<open>w\<close>.\<close>

fun onBatchExecuteStart_step :: "appHerder \<Rightarrow> world \<Rightarrow> point \<Rightarrow> point \<times> appHerder \<times> event list" where
  "onBatchExecuteStart_step a w (AtLock c s) =
     (case onBatchExecuteStart_loop (a\<lparr>indexes := AList.update c s (indexes a)\<rparr>) w of
        (p, a', es) \<Rightarrow> (p, a', Lock # es))"
| "onBatchExecuteStart_step a w AtSend = (AtWait, a, [Send])"
| "onBatchExecuteStart_step a w AtWait = (InWait, a, [Wait])"
| "onBatchExecuteStart_step a w InWait = (InWait, a, [])"
| "onBatchExecuteStart_step a w Notified =
     (case onBatchExecuteStart_loop
             (a\<lparr>waiting := waiting a - 1,
                stats := (stats a)\<lparr>TotWaitingOut := TotWaitingOut (stats a) + 1\<rparr>\<rparr>) w of
        (p, a', es) \<Rightarrow> (p, a', Wake # es))"
| "onBatchExecuteStart_step a w AtEnd =
     (Out,
      a\<lparr>stats := (stats a)\<lparr>TotOnBatchExecuteStartEnd :=
           TotOnBatchExecuteStartEnd (stats a) + 1\<rparr>\<rparr>,
      [])"
| "onBatchExecuteStart_step a w Out = (Out, a, [])"

text \<open>A caller that is parked or has returned takes no step of its own.\<close>

fun runs :: "point \<Rightarrow> bool" where
  "runs InWait = False"
| "runs Out = False"
| "runs p = True"

text \<open>
  The call run on its own, with no other goroutine: the steps of the caller until it
  returns or parks. Three steps after the entry are enough (\<open>onBatchExecuteStart_settles\<close>).
\<close>

fun drive :: "nat \<Rightarrow> world \<Rightarrow> point \<times> appHerder \<times> event list \<Rightarrow> point \<times> appHerder \<times> event list" where
  "drive 0 w x = x"
| "drive (Suc n) w (p, a, es) =
     (if runs p then
        (case onBatchExecuteStart_step a w p of (p', a', es') \<Rightarrow> drive n w (p', a', es @ es'))
      else (p, a, es))"

definition onBatchExecuteStart ::
  "appHerder \<Rightarrow> world \<Rightarrow> handle \<Rightarrow> sizeFunc \<Rightarrow> point \<times> appHerder \<times> event list" where
  "onBatchExecuteStart a w c s =
     (case onBatchExecuteStart_entry a c s of
        (p, a') \<Rightarrow> drive (Suc (Suc (Suc 0))) w (p, a', []))"

text \<open>Whether some send on the channel happens while the caller holds the mutex.\<close>

fun sendsLocked :: "bool \<Rightarrow> event list \<Rightarrow> bool" where
  "sendsLocked held [] = False"
| "sendsLocked held (Lock # es) = sendsLocked True es"
| "sendsLocked held (Unlock # es) = sendsLocked False es"
| "sendsLocked held (Wait # es) = sendsLocked False es"
| "sendsLocked held (Wake # es) = sendsLocked True es"
| "sendsLocked held (Broadcast # es) = sendsLocked held es"
| "sendsLocked held (Send # es) = (if held then True else sendsLocked held es)"

section \<open>Goroutines sharing one herder\<close>

text \<open>
  The herder with its mutex and the goroutines that have called
  \<^verbatim>\<open>onBatchExecuteStart\<close>. Every other call holds the mutex from its first access to the
  herder to its last, so it is one action; the mutex is held between two actions only
  by a gate caller that stands at \<open>AtSend\<close> or \<open>AtWait\<close>.
\<close>

record sys =
  herder :: appHerder
  mutex :: bool
  workers :: "point list"

datatype action =
    CallBatchExecuteStart handle sizeFunc  \<comment> \<open>a goroutine calls it and runs lines 134 to 138\<close>
  | Advance nat world                      \<comment> \<open>the \<open>i\<close>-th gate caller takes its next step\<close>
  | CallQueryStart int u64 world
  | CallQueryEnd int u64
  | CallClose handle
  | CallMemoryUsedDropped u64 u64
  | CallPersisterProgress
  | CallMergerProgress

fun takes :: "point \<Rightarrow> bool" where
  "takes (AtLock c s) = True"
| "takes Notified = True"
| "takes p = False"

fun holds :: "point \<Rightarrow> bool" where
  "holds AtSend = True"
| "holds AtWait = True"
| "holds p = False"

fun notify :: "point \<Rightarrow> point" where
  "notify InWait = Notified"
| "notify p = p"

definition deliver :: "event list \<Rightarrow> point list \<Rightarrow> point list" where
  "deliver es ps = (if Broadcast \<in> set es then map notify ps else ps)"

definition locked_call :: "sys \<Rightarrow> appHerder \<times> event list \<Rightarrow> sys option" where
  "locked_call s r =
     (if mutex s then None
      else Some (s\<lparr>herder := fst r, workers := deliver (snd r) (workers s)\<rparr>))"

fun exec :: "sys \<Rightarrow> action \<Rightarrow> sys option" where
  "exec s (CallBatchExecuteStart c f) =
     (case onBatchExecuteStart_entry (herder s) c f of
        (p, a') \<Rightarrow> Some (s\<lparr>herder := a', workers := workers s @ [p]\<rparr>))"
| "exec s (Advance i w) =
     (if length (workers s) \<le> i then None
      else if \<not> runs (workers s ! i) then None
      else if takes (workers s ! i) \<and> mutex s then None
      else
        (case onBatchExecuteStart_step (herder s) w (workers s ! i) of
           (p', a', es) \<Rightarrow>
             Some \<lparr>herder = a',
                   mutex = (if takes (workers s ! i) then holds p'
                            else if holds (workers s ! i) then holds p'
                            else mutex s),
                   workers = (workers s)[i := p']\<rparr>))"
| "exec s (CallQueryStart depth sz w) =
     (if mutex s \<and> \<not> queryQuota (herder s) <s 0 then None
      else
        (case onQueryStart (herder s) w depth sz of
           (r, a', es) \<Rightarrow> Some (s\<lparr>herder := a', workers := deliver es (workers s)\<rparr>)))"
| "exec s (CallQueryEnd depth sz) =
     (case onQueryEnd (herder s) depth sz of (r, a', es) \<Rightarrow> locked_call s (a', es))"
| "exec s (CallClose c) = locked_call s (onClose (herder s) c)"
| "exec s (CallMemoryUsedDropped cur prev) =
     locked_call s (onMemoryUsedDropped (herder s) cur prev)"
| "exec s CallPersisterProgress = locked_call s (onPersisterProgress (herder s))"
| "exec s CallMergerProgress = locked_call s (onMergerProgress (herder s))"

fun run :: "sys \<Rightarrow> action list \<Rightarrow> sys option" where
  "run s [] = Some s"
| "run s (x # xs) = (case exec s x of None \<Rightarrow> None | Some s' \<Rightarrow> run s' xs)"

text \<open>
  The struct \<^verbatim>\<open>newAppHerder\<close> returns: the quotas (derived there in \<^verbatim>\<open>float64\<close>
  arithmetic, given here), the channel, an empty registry and zero in every other
  field. No goroutine has called it yet.
\<close>

definition newAppHerder :: "u64 \<Rightarrow> u64 \<Rightarrow> u64 \<Rightarrow> u64 \<Rightarrow> bool \<Rightarrow> appHerder" where
  "newAppHerder mq aq iq qq ch =
     \<lparr>memQuota = mq, appQuota = aq, indexQuota = iq, queryQuota = qq, overQuotaCh = ch,
      waiting = 0, indexes = [], runningQueryUsed = 0,
      stats = \<lparr>TotWaitingIn = 0, TotWaitingOut = 0,
               TotOnBatchExecuteStartBeg = 0, TotOnBatchExecuteStartEnd = 0\<rparr>\<rparr>"

definition boot :: "appHerder \<Rightarrow> sys" where
  "boot a = \<lparr>herder = a, mutex = False, workers = []\<rparr>"

text \<open>The callers of \<^verbatim>\<open>onBatchExecuteStart\<close> that have counted in and not yet counted out.\<close>

fun inGate :: "point \<Rightarrow> nat" where
  "inGate Out = 0"
| "inGate p = 1"

definition inside :: "sys \<Rightarrow> nat" where
  "inside s = sum_list (map inGate (workers s))"

text \<open>The callers that have been counted into \<open>waiting\<close> and not yet out of it.\<close>

fun queued :: "point \<Rightarrow> nat" where
  "queued AtSend = 1"
| "queued AtWait = 1"
| "queued InWait = 1"
| "queued Notified = 1"
| "queued p = 0"

text \<open>
  The bookkeeping behind the counters: after at most \<open>n\<close> actions no counter exceeds
  \<open>n\<close>, and the begin counter is the end counter plus the callers still inside.
\<close>

definition tally :: "nat \<Rightarrow> sys \<Rightarrow> bool" where
  "tally n s =
     (unat (TotOnBatchExecuteStartBeg (stats (herder s))) \<le> n
      \<and> unat (TotOnBatchExecuteStartBeg (stats (herder s))) =
          unat (TotOnBatchExecuteStartEnd (stats (herder s))) + inside s
      \<and> unat (TotWaitingIn (stats (herder s))) \<le> n
      \<and> unat (TotWaitingOut (stats (herder s))) \<le> n)"

text \<open>\<^verbatim>\<open>atomic.AddUint64(&x, 1)\<close> done or not done.\<close>

definition bump :: "bool \<Rightarrow> u64 \<Rightarrow> u64" where
  "bump b x = (if b then x + 1 else x)"

text \<open>With a negative \<open>indexQuota\<close> nobody is ever registered, counted or held in the gate.\<close>

definition idle :: "sys \<Rightarrow> bool" where
  "idle s =
     (indexQuota (herder s) <s 0 \<and> indexes (herder s) = [] \<and> set (workers s) \<subseteq> {Out}
      \<and> stats (herder s) =
          \<lparr>TotWaitingIn = 0, TotWaitingOut = 0,
           TotOnBatchExecuteStartBeg = 0, TotOnBatchExecuteStartEnd = 0\<rparr>)"

section \<open>Worlds for the scenarios\<close>

text \<open>A world with the given process memory, no bytes in batches, every engine reporting \<open>bytes\<close>.\<close>

definition steady :: "u64 \<Rightarrow> u64 \<Rightarrow> world" where
  "steady rss bytes =
     \<lparr>CurMemoryUsed = rss, BatchBytesAdded = 0, BatchBytesRemoved = 0,
      engineBytes = (\<lambda>c. bytes)\<rparr>"

section \<open>The overMemQuotaForIndexing predicate\<close>

lemmas gate_defs = onBatchExecuteStart_def onBatchExecuteStart_entry_def
  onBatchExecuteStart_loop_def

lemmas mem_defs = overMemQuotaForIndexingLOCKED_def indexingMemoryLOCKED_def
  preIndexingMemoryLOCKED_def

text \<open>
  The loop of \<open>indexingMemoryLOCKED\<close> (lines 181 to 183) computes the sum, in \<^verbatim>\<open>uint64\<close>
  arithmetic, of what every registered callback reports for its own handle.
\<close>

lemma foldl_sizes:
  "foldl (\<lambda>rv (index, indexSizeFunc). rv + indexSizeFunc w index) z xs =
     z + sum_list (map (\<lambda>(index, indexSizeFunc). indexSizeFunc w index) xs)"
  for z :: u64
  by (induction xs arbitrary: z) (auto simp: add.assoc)

lemma indexingMemoryLOCKED_sum:
  "indexingMemoryLOCKED a w =
     sum_list (map (\<lambda>(index, indexSizeFunc). indexSizeFunc w index) (indexes a))"
  by (simp add: indexingMemoryLOCKED_def foldl_sizes)

text \<open>
  Claim C1. With the lock held, \<open>overMemQuotaForIndexingLOCKED\<close> answers False whenever
  the sum of what the registered size callbacks report is 0, whatever the process
  memory is. Otherwise, with \<open>memUsed\<close> the process memory plus the pre-indexing memory
  (added as \<^verbatim>\<open>int64\<close>, as the code adds them), it answers True exactly when
  \<open>indexQuota > 0\<close> and \<open>memUsed > indexQuota\<close>, or else \<open>appQuota > 0\<close> and
  \<open>memUsed > appQuota\<close>. In particular a zero \<open>indexQuota\<close> with a positive \<open>appQuota\<close>
  leaves the \<open>appQuota\<close> check in force.
\<close>

theorem overMemQuotaForIndexing_spec:
  "(sum_list (map (\<lambda>(index, indexSizeFunc). indexSizeFunc w index) (indexes a)) = 0 \<longrightarrow>
      \<not> overMemQuotaForIndexingLOCKED a w)
   \<and> (sum_list (map (\<lambda>(index, indexSizeFunc). indexSizeFunc w index) (indexes a)) \<noteq> 0 \<longrightarrow>
        overMemQuotaForIndexingLOCKED a w =
          ((0 <s indexQuota a
              \<and> indexQuota a <s CurMemoryUsed w + (BatchBytesAdded w - BatchBytesRemoved w))
           \<or> (0 <s appQuota a
              \<and> appQuota a <s CurMemoryUsed w + (BatchBytesAdded w - BatchBytesRemoved w))))
   \<and> (sum_list (map (\<lambda>(index, indexSizeFunc). indexSizeFunc w index) (indexes a)) \<noteq> 0
        \<and> indexQuota a = 0 \<and> 0 <s appQuota a \<longrightarrow>
        overMemQuotaForIndexingLOCKED a w =
          (appQuota a <s CurMemoryUsed w + (BatchBytesAdded w - BatchBytesRemoved w)))"
  by (auto simp: overMemQuotaForIndexingLOCKED_def preIndexingMemoryLOCKED_def
      indexingMemoryLOCKED_sum Let_def)

text \<open>
  Under the claim: two registered engines that both report 0 bytes are not gated at a
  process memory of 5000, far above both quotas, and neither is an empty registry; one
  engine reporting 200 bytes is gated by \<open>appQuota = 100\<close> at process memory 150 although
  \<open>indexQuota = 0\<close>, and is not gated at process memory 90.
\<close>

theorem overMemQuotaForIndexing_spec_witness:
  "sum_list (map (\<lambda>(index, indexSizeFunc). indexSizeFunc (steady 5000 0) index)
       (indexes ((newAppHerder 1000 100 0 50 True)
          \<lparr>indexes := [(7, engineBytes), (8, engineBytes)]\<rparr>))) = 0
   \<and> \<not> overMemQuotaForIndexingLOCKED
         ((newAppHerder 1000 100 0 50 True)\<lparr>indexes := [(7, engineBytes), (8, engineBytes)]\<rparr>)
         (steady 5000 0)
   \<and> \<not> overMemQuotaForIndexingLOCKED (newAppHerder 1000 100 0 50 True) (steady 5000 200)
   \<and> sum_list (map (\<lambda>(index, indexSizeFunc). indexSizeFunc (steady 150 200) index)
       (indexes ((newAppHerder 1000 100 0 50 True)\<lparr>indexes := [(7, engineBytes)]\<rparr>))) \<noteq> 0
   \<and> indexQuota ((newAppHerder 1000 100 0 50 True)\<lparr>indexes := [(7, engineBytes)]\<rparr>) = 0
   \<and> 0 <s appQuota ((newAppHerder 1000 100 0 50 True)\<lparr>indexes := [(7, engineBytes)]\<rparr>)
   \<and> overMemQuotaForIndexingLOCKED ((newAppHerder 1000 100 0 50 True)\<lparr>indexes := [(7, engineBytes)]\<rparr>)
        (steady 150 200)
   \<and> \<not> overMemQuotaForIndexingLOCKED ((newAppHerder 1000 100 0 50 True)\<lparr>indexes := [(7, engineBytes)]\<rparr>)
        (steady 90 200)"
  using
    overMemQuotaForIndexing_spec
      [of "steady 5000 0"
          "(newAppHerder 1000 100 0 50 True)\<lparr>indexes := [(7, engineBytes), (8, engineBytes)]\<rparr>"]
    overMemQuotaForIndexing_spec [of "steady 5000 200" "newAppHerder 1000 100 0 50 True"]
    overMemQuotaForIndexing_spec
      [of "steady 150 200" "(newAppHerder 1000 100 0 50 True)\<lparr>indexes := [(7, engineBytes)]\<rparr>"]
    overMemQuotaForIndexing_spec
      [of "steady 90 200" "(newAppHerder 1000 100 0 50 True)\<lparr>indexes := [(7, engineBytes)]\<rparr>"]
  by (simp add: newAppHerder_def steady_def word_sless_alt)

text \<open>
  The \<^verbatim>\<open>int64\<close> sum in the two quota checks is the exact sum whenever the two terms
  together stay below \<open>2^63\<close> bytes.
\<close>

lemma int64_sum_exact:
  fixes q x y :: u64
  assumes "unat x + unat y < 2 ^ 63"
  shows "(q <s x + y) = (sint q < int (unat x) + int (unat y))"
proof -
  have "(2::nat) ^ 63 \<le> 2 ^ 64"
    by (rule power_increasing) simp_all
  then have "unat x + unat y < 2 ^ LENGTH(64)"
    using assms by simp
  then have u: "unat (x + y) = unat x + unat y"
    by (simp only: unat_add_lem)
  have "signed_take_bit 63 (int (unat x + unat y)) = int (unat x + unat y)"
  proof (rule signed_take_bit_int_eq_self)
    show "- (2 ^ 63) \<le> int (unat x + unat y)"
      by (rule order_trans [of _ 0]) simp_all
    show "int (unat x + unat y) < 2 ^ 63"
      using assms by (metis of_nat_less_iff of_nat_numeral of_nat_power)
  qed
  moreover have "sint (x + y) = signed_take_bit 63 (uint (x + y))"
    using sint_uint [of "x + y"] by simp
  moreover have "uint (x + y) = int (unat x + unat y)"
    by (simp only: uint_nat u)
  ultimately have "sint (x + y) = int (unat x) + int (unat y)"
    by simp
  then show ?thesis
    by (simp only: word_sless_alt)
qed

section \<open>The gate run on its own\<close>

text \<open>The call on its own always ends returned or parked: three steps are enough.\<close>

lemma onBatchExecuteStart_settles:
  "fst (onBatchExecuteStart a w c s) = Out \<or> fst (onBatchExecuteStart a w c s) = InWait"
  by (simp add: gate_defs split: prod.splits)

lemma onBatchExecuteStart_unfold:
  "onBatchExecuteStart a w c s =
     (if indexQuota a <s 0 then (Out, a, [])
      else
        let a1 = a\<lparr>stats := (stats a)\<lparr>TotOnBatchExecuteStartBeg :=
                      TotOnBatchExecuteStartBeg (stats a) + 1\<rparr>\<rparr>;
            a2 = a1\<lparr>indexes := AList.update c s (indexes a)\<rparr>
        in if overMemQuotaForIndexingLOCKED a2 w then
             (InWait,
              a2\<lparr>waiting := waiting a + 1,
                 stats := (stats a2)\<lparr>TotWaitingIn := TotWaitingIn (stats a) + 1\<rparr>\<rparr>,
              [Lock] @ (if overQuotaCh a then [Send] else []) @ [Wait])
           else
             (Out,
              a2\<lparr>stats := (stats a2)\<lparr>TotOnBatchExecuteStartEnd :=
                    TotOnBatchExecuteStartEnd (stats a) + 1\<rparr>\<rparr>,
              [Lock, Unlock]))"
  by (simp add: gate_defs Let_def)

text \<open>
  Claim C2, as stated, fails: scenario S1 of the specification (a quota of \<open>10^9\<close>, the
  index ratio \<open>-1\<close>, process memory \<open>10^10\<close>). The call returns at line 135, before
  the first counter is touched at line 138, so both counters are 0 afterwards, not 1.
\<close>

theorem onBatchExecuteStart_bypass_counters:
  "\<not> (TotOnBatchExecuteStartBeg (stats (fst (snd
          (onBatchExecuteStart (newAppHerder 1000000000 1000000000 (- 1000000000) 1000000000 True)
             (steady 10000000000 200) 7 engineBytes)))) = 1
      \<and> TotOnBatchExecuteStartEnd (stats (fst (snd
          (onBatchExecuteStart (newAppHerder 1000000000 1000000000 (- 1000000000) 1000000000 True)
             (steady 10000000000 200) 7 engineBytes)))) = 1
      \<and> TotWaitingIn (stats (fst (snd
          (onBatchExecuteStart (newAppHerder 1000000000 1000000000 (- 1000000000) 1000000000 True)
             (steady 10000000000 200) 7 engineBytes)))) = 0)"
  by (simp add: gate_defs newAppHerder_def word_sless_alt)

text \<open>
  Claim C2, amended. With \<open>indexQuota < 0\<close> the call returns at once whatever the world
  reports: it takes no lock, sends nothing, never waits, and leaves the herder as it
  was. No counter moves, so on a herder fresh from \<open>newAppHerder\<close> all four are still 0.
\<close>

theorem onBatchExecuteStart_bypass:
  assumes "indexQuota a <s 0"
  shows "onBatchExecuteStart a w c s = (Out, a, [])"
  using assms by (simp add: gate_defs)

theorem onBatchExecuteStart_bypass_witness:
  "indexQuota (newAppHerder 1000000000 1000000000 (- 1000000000) 1000000000 True) <s 0
   \<and> onBatchExecuteStart (newAppHerder 1000000000 1000000000 (- 1000000000) 1000000000 True)
        (steady 10000000000 200) 7 engineBytes
      = (Out, newAppHerder 1000000000 1000000000 (- 1000000000) 1000000000 True, [])
   \<and> stats (newAppHerder 1000000000 1000000000 (- 1000000000) 1000000000 True)
      = \<lparr>TotWaitingIn = 0, TotWaitingOut = 0,
         TotOnBatchExecuteStartBeg = 0, TotOnBatchExecuteStartEnd = 0\<rparr>"
proof -
  have neg: "indexQuota (newAppHerder 1000000000 1000000000 (- 1000000000) 1000000000 True) <s 0"
    by (simp add: newAppHerder_def word_sless_alt)
  show ?thesis
    using neg onBatchExecuteStart_bypass [OF neg, of "steady 10000000000 200" 7 engineBytes]
    by (simp add: newAppHerder_def)
qed

section \<open>Query admission\<close>

text \<open>
  Claim C3. A top-level query (\<open>depth = 0\<close>) that arrives while \<open>runningQueryUsed > 0\<close>
  and \<open>queryQuota \<ge> 0\<close>, and whose size added to the process memory (as \<^verbatim>\<open>int64\<close>)
  exceeds a positive \<open>queryQuota\<close> or else a positive \<open>appQuota\<close>, is rejected with
  \<open>ErrorSearchReqRejected\<close>. The call locks, unlocks, then sends once on the channel if
  there is one; it never waits on the condition variable, and the herder, so also
  \<open>runningQueryUsed\<close>, is unchanged.
\<close>

theorem onQueryStart_rejects:
  assumes "\<not> queryQuota a <s 0" and "0 < runningQueryUsed a"
    and "(0 <s queryQuota a \<and> queryQuota a <s CurMemoryUsed w + sz)
         \<or> (0 <s appQuota a \<and> appQuota a <s CurMemoryUsed w + sz)"
  shows "onQueryStart a w 0 sz =
           (Some ErrorSearchReqRejected, a,
            [Lock, Unlock] @ (if overQuotaCh a then [Send] else []))
         \<and> count_list (snd (snd (onQueryStart a w 0 sz))) Send = (if overQuotaCh a then 1 else 0)
         \<and> Wait \<notin> set (snd (snd (onQueryStart a w 0 sz)))
         \<and> runningQueryUsed (fst (snd (onQueryStart a w 0 sz))) = runningQueryUsed a"
  using assms by (auto simp: onQueryStart_def Let_def)

theorem onQueryStart_rejects_witness:
  "\<not> queryQuota ((newAppHerder 100 100 100 50 True)\<lparr>runningQueryUsed := 10\<rparr>) <s 0
   \<and> 0 < runningQueryUsed ((newAppHerder 100 100 100 50 True)\<lparr>runningQueryUsed := 10\<rparr>)
   \<and> 0 <s queryQuota ((newAppHerder 100 100 100 50 True)\<lparr>runningQueryUsed := 10\<rparr>)
   \<and> queryQuota ((newAppHerder 100 100 100 50 True)\<lparr>runningQueryUsed := 10\<rparr>)
        <s CurMemoryUsed (steady 45 0) + 20
   \<and> onQueryStart ((newAppHerder 100 100 100 50 True)\<lparr>runningQueryUsed := 10\<rparr>)
        (steady 45 0) 0 20
      = (Some ErrorSearchReqRejected,
         (newAppHerder 100 100 100 50 True)\<lparr>runningQueryUsed := 10\<rparr>,
         [Lock, Unlock, Send])"
  using onQueryStart_rejects
    [of "(newAppHerder 100 100 100 50 True)\<lparr>runningQueryUsed := 10\<rparr>" "steady 45 0" 20]
  by (simp add: newAppHerder_def steady_def word_sless_alt)

text \<open>
  Claim C4. With \<open>runningQueryUsed = 0\<close> and \<open>queryQuota \<ge> 0\<close> a top-level query is
  admitted whatever the process memory and the quotas are, and \<open>runningQueryUsed\<close>
  becomes its size.
\<close>

theorem onQueryStart_first_admitted:
  assumes "\<not> queryQuota a <s 0" and "runningQueryUsed a = 0"
  shows "onQueryStart a w 0 sz = (None, a\<lparr>runningQueryUsed := sz\<rparr>, [Lock, Unlock])"
  using assms by (simp add: onQueryStart_def)

theorem onQueryStart_first_admitted_witness:
  "\<not> queryQuota (newAppHerder 100 100 100 50 True) <s 0
   \<and> runningQueryUsed (newAppHerder 100 100 100 50 True) = 0
   \<and> onQueryStart (newAppHerder 100 100 100 50 True) (steady 1000 0) 0 5000
      = (None, (newAppHerder 100 100 100 50 True)\<lparr>runningQueryUsed := 5000\<rparr>, [Lock, Unlock])"
  using onQueryStart_first_admitted [of "newAppHerder 100 100 100 50 True" "steady 1000 0" 5000]
  by (simp add: newAppHerder_def word_sless_alt)

text \<open>
  Claim C5, as stated, fails when \<open>queryQuota\<close> is negative: the call returns at line
  254 before the addition, so a nested query of size 100 leaves 1000 at 1000.
\<close>

theorem onQueryStart_nested_bypass:
  "fst (onQueryStart ((newAppHerder 100 100 100 (- 1) True)\<lparr>runningQueryUsed := 1000\<rparr>)
          (steady 45 0) 2 100) = None
   \<and> runningQueryUsed (fst (snd
         (onQueryStart ((newAppHerder 100 100 100 (- 1) True)\<lparr>runningQueryUsed := 1000\<rparr>)
            (steady 45 0) 2 100))) = 1000
   \<and> runningQueryUsed (fst (snd
         (onQueryStart ((newAppHerder 100 100 100 (- 1) True)\<lparr>runningQueryUsed := 1000\<rparr>)
            (steady 45 0) 2 100)))
       \<noteq> runningQueryUsed ((newAppHerder 100 100 100 (- 1) True)\<lparr>runningQueryUsed := 1000\<rparr>)
           + 100"
  by (simp add: onQueryStart_def newAppHerder_def word_sless_alt)

text \<open>
  Claim C5, amended. A nested query (\<open>depth > 0\<close>) is always admitted, whatever the
  process memory, the quotas and \<open>runningQueryUsed\<close> are. With \<open>queryQuota \<ge> 0\<close> the
  accumulator grows by exactly the size (in 64-bit arithmetic); with \<open>queryQuota < 0\<close>
  it is left as it was.
\<close>

theorem onQueryStart_nested:
  assumes "0 < depth"
  shows "fst (onQueryStart a w depth sz) = None
         \<and> runningQueryUsed (fst (snd (onQueryStart a w depth sz))) =
             (if queryQuota a <s 0 then runningQueryUsed a else runningQueryUsed a + sz)"
  using assms by (simp add: onQueryStart_def)

theorem onQueryStart_nested_witness:
  "(0::int) < 2
   \<and> fst (onQueryStart ((newAppHerder 100 100 100 50 True)\<lparr>runningQueryUsed := 1000\<rparr>)
          (steady 45 0) 2 100) = None
   \<and> runningQueryUsed (fst (snd
         (onQueryStart ((newAppHerder 100 100 100 50 True)\<lparr>runningQueryUsed := 1000\<rparr>)
            (steady 45 0) 2 100))) = 1100"
  using onQueryStart_nested
    [of 2 "(newAppHerder 100 100 100 50 True)\<lparr>runningQueryUsed := 1000\<rparr>" "steady 45 0" 100]
  by (simp add: newAppHerder_def word_sless_alt)

text \<open>
  Claim C6, as stated, fails when \<open>queryQuota\<close> is negative: \<open>onQueryStart\<close> returns
  before adding and \<open>onQueryEnd\<close> still subtracts, so one pair of size 5 leaves
  \<open>2^64 - 5\<close>.
\<close>

theorem queryPairs_bypass_unbalanced:
  "runningQueryUsed (newAppHerder 100 100 100 (- 1) True) = 0
   \<and> runningQueryUsed (queryPairs (newAppHerder 100 100 100 (- 1) True) [(steady 45 0, 5)])
       = 18446744073709551611
   \<and> runningQueryUsed (queryPairs (newAppHerder 100 100 100 (- 1) True) [(steady 45 0, 5)]) \<noteq> 0"
  by (simp add: onQueryStart_def onQueryEnd_def newAppHerder_def Let_def word_sless_alt)

text \<open>
  Claim C6, amended. With \<open>queryQuota \<ge> 0\<close>, any sequence of matched pairs
  \<open>onQueryStart(0, s)\<close>, \<open>onQueryEnd(0, s)\<close> run from \<open>runningQueryUsed = 0\<close> ends with
  \<open>runningQueryUsed = 0\<close>, whatever the worlds read on the way.
\<close>

theorem queryPairs_balanced:
  assumes "\<not> queryQuota a <s 0" and "runningQueryUsed a = 0"
  shows "runningQueryUsed (queryPairs a ps) = 0"
  using assms
proof (induction ps arbitrary: a)
  case Nil
  then show ?case by simp
next
  case (Cons p ps)
  obtain w sz where p: "p = (w, sz)" by (cases p)
  let ?a2 = "fst (snd (onQueryEnd (fst (snd (onQueryStart a w 0 sz))) 0 sz))"
  have q: "\<not> queryQuota ?a2 <s 0" and r: "runningQueryUsed ?a2 = 0"
    using Cons.prems by (simp_all add: onQueryStart_def onQueryEnd_def Let_def)
  have "queryPairs a (p # ps) = queryPairs ?a2 ps"
    by (simp add: p split: prod.splits)
  then show ?case using Cons.IH [OF q r] by simp
qed

theorem queryPairs_balanced_witness:
  "\<not> queryQuota (newAppHerder 100 100 100 50 True) <s 0
   \<and> runningQueryUsed (newAppHerder 100 100 100 50 True) = 0
   \<and> runningQueryUsed
        (queryPairs (newAppHerder 100 100 100 50 True) [(steady 45 0, 10), (steady 4500 0, 20000)])
       = 0"
  using queryPairs_balanced
    [of "newAppHerder 100 100 100 50 True" "[(steady 45 0, 10), (steady 4500 0, 20000)]"]
  by (simp add: newAppHerder_def word_sless_alt)

text \<open>
  The same balance when queries overlap: with \<open>queryQuota \<ge> 0\<close> the accumulator is
  always the sum of the sizes of the live queries, so it is 0 when none is live.
\<close>

lemma sum_list_remove1_word:
  fixes x :: u64
  assumes "x \<in> set xs"
  shows "sum_list (remove1 x xs) = sum_list xs - x"
  using sum_list_map_remove1 [OF assms, of "\<lambda>v. v"] by simp

lemma queries_balanced:
  assumes "\<not> queryQuota a <s 0" and "runningQueryUsed a = sum_list live"
    and "queries a live cs = Some (a', live')"
  shows "runningQueryUsed a' = sum_list live'"
  using assms
proof (induction cs arbitrary: a live)
  case Nil
  then show ?case by simp
next
  case (Cons c cs)
  show ?case
  proof (cases c)
    case (QStart w sz)
    obtain r a1 es where q: "onQueryStart a w 0 sz = (r, a1, es)"
      by (cases "onQueryStart a w 0 sz")
    have quota: "\<not> queryQuota a1 <s 0"
      using q Cons.prems(1) by (auto simp: onQueryStart_def Let_def split: if_splits)
    show ?thesis
    proof (cases r)
      case None
      then have "runningQueryUsed a1 = sum_list (sz # live)"
        using q Cons.prems(1,2) by (auto simp: onQueryStart_def Let_def split: if_splits)
      moreover have "queries a1 (sz # live) cs = Some (a', live')"
        using Cons.prems(3) QStart q None by simp
      ultimately show ?thesis
        using Cons.IH [OF quota] by blast
    next
      case (Some e)
      then have "runningQueryUsed a1 = sum_list live"
        using q Cons.prems(1,2) by (auto simp: onQueryStart_def Let_def split: if_splits)
      moreover have "queries a1 live cs = Some (a', live')"
        using Cons.prems(3) QStart q Some by simp
      ultimately show ?thesis
        using Cons.IH [OF quota] by blast
    qed
  next
    case (QEnd sz)
    then have m: "sz \<in> set live"
      using Cons.prems(3) by (simp split: if_splits)
    let ?a1 = "fst (snd (onQueryEnd a 0 sz))"
    have "\<not> queryQuota ?a1 <s 0"
      using Cons.prems(1) by (simp add: onQueryEnd_def Let_def)
    moreover have "runningQueryUsed ?a1 = sum_list (remove1 sz live)"
      using Cons.prems(2) by (simp add: onQueryEnd_def Let_def sum_list_remove1_word [OF m])
    moreover have "queries ?a1 (remove1 sz live) cs = Some (a', live')"
      using Cons.prems(3) QEnd m by (simp split: prod.splits)
    ultimately show ?thesis
      using Cons.IH by blast
  qed
qed

text \<open>
  Claim C7, as stated, fails: \<open>onQueryEnd\<close> of size 1 on an accumulator at 0 gives
  \<open>2^64 - 1\<close>, not 0. Line 312 is a plain \<^verbatim>\<open>uint64\<close> subtraction.
\<close>

theorem onQueryEnd_no_clamp:
  "\<not> runningQueryUsed (fst (snd (onQueryEnd (newAppHerder 100 100 100 50 True) 0 1))) = 0"
  by (simp add: newAppHerder_def onQueryEnd_def Let_def)


text \<open>
  Claim C7, amended. When \<open>onQueryEnd\<close> is called with a size greater than
  \<open>runningQueryUsed\<close>, the accumulator is not clamped: it wraps to
  \<open>runningQueryUsed + 2^64 - size\<close>, which is never 0.
\<close>

theorem onQueryEnd_wraps:
  assumes "runningQueryUsed a < sz"
  shows "unat (runningQueryUsed (fst (snd (onQueryEnd a depth sz)))) =
           unat (runningQueryUsed a) + 2 ^ 64 - unat sz
         \<and> runningQueryUsed (fst (snd (onQueryEnd a depth sz))) \<noteq> 0"
proof -
  have "unat (runningQueryUsed a) < unat sz"
    using assms by (simp add: word_less_nat_alt)
  moreover have "unat sz < 2 ^ 64"
    using unsigned_less [of sz] by simp
  ultimately show ?thesis
    by (auto simp: onQueryEnd_def Let_def unat_sub_if' word_less_nat_alt)
qed

theorem onQueryEnd_wraps_witness:
  "runningQueryUsed (newAppHerder 100 100 100 50 True) < 1
   \<and> runningQueryUsed (fst (snd (onQueryEnd (newAppHerder 100 100 100 50 True) 0 1)))
       = 18446744073709551615"
  using onQueryEnd_wraps [of "newAppHerder 100 100 100 50 True" 1 0]
  by (simp add: newAppHerder_def onQueryEnd_def Let_def)

section \<open>The send on the channel and the mutex\<close>

text \<open>
  The query paths unlock before they send (lines 279 and 293), and the progress hooks
  never send.
\<close>

lemma onQueryStart_sends_unlocked: "\<not> sendsLocked False (snd (snd (onQueryStart a w depth sz)))"
  by (simp add: onQueryStart_def Let_def)

text \<open>The gate sends at line 158, between \<^verbatim>\<open>Lock()\<close> at line 140 and \<^verbatim>\<open>Wait()\<close> at line 161.\<close>

lemma onBatchExecuteStart_trace_over:
  assumes "\<not> indexQuota a <s 0"
    and "overMemQuotaForIndexingLOCKED
           (a\<lparr>stats := (stats a)\<lparr>TotOnBatchExecuteStartBeg :=
                  TotOnBatchExecuteStartBeg (stats a) + 1\<rparr>,
              indexes := AList.update c s (indexes a)\<rparr>) w"
  shows "snd (snd (onBatchExecuteStart a w c s)) =
           [Lock] @ (if overQuotaCh a then [Send] else []) @ [Wait]"
  using assms by (simp add: gate_defs)

text \<open>
  Claim C8 is not what the code does in the index gate. Scenario S3 with a channel:
  \<open>indexQuota = 100\<close>, one engine reporting 200 bytes, process memory 150. The caller
  locks, sends while it holds the mutex, and only then enters \<open>Wait()\<close>; among the
  goroutines, the mutex is held while the caller stands before the send.
\<close>

theorem onBatchExecuteStart_sends_locked:
  "snd (snd (onBatchExecuteStart (newAppHerder 1000 1000 100 500 True) (steady 150 200)
               7 engineBytes)) = [Lock, Send, Wait]
   \<and> sendsLocked False
        (snd (snd (onBatchExecuteStart (newAppHerder 1000 1000 100 500 True) (steady 150 200)
                     7 engineBytes)))
   \<and> map_option (\<lambda>s. (mutex s, workers s))
        (run (boot (newAppHerder 1000 1000 100 500 True))
           [CallBatchExecuteStart 7 engineBytes, Advance 0 (steady 150 200)])
       = Some (True, [AtSend])"
  by (simp add: gate_defs newAppHerder_def steady_def boot_def
      overMemQuotaForIndexingLOCKED_def indexingMemoryLOCKED_def preIndexingMemoryLOCKED_def
      word_sless_alt)

section \<open>The counters\<close>

lemma inGate_notify: "inGate (notify p) = inGate p"
  by (cases p) simp_all

lemma inGate_deliver: "sum_list (map inGate (deliver es ps)) = sum_list (map inGate ps)"
proof -
  have "map inGate (map notify ps) = map inGate ps"
    by (induction ps) (simp_all add: inGate_notify)
  then show ?thesis by (simp add: deliver_def del: map_map)
qed

lemma inGate_update:
  "i < length ps \<Longrightarrow>
     sum_list (map inGate (ps[i := p])) + inGate (ps ! i) = sum_list (map inGate ps) + inGate p"
proof (induction ps arbitrary: i)
  case Nil
  then show ?case by simp
next
  case (Cons q ps)
  then show ?case by (cases i) auto
qed

lemma inGate_pos: "i < length ps \<Longrightarrow> inGate (ps ! i) \<le> sum_list (map inGate ps)"
proof (induction ps arbitrary: i)
  case Nil
  then show ?case by simp
next
  case (Cons q ps)
  show ?case
  proof (cases i)
    case 0
    then show ?thesis by simp
  next
    case (Suc j)
    then have "inGate (ps ! j) \<le> sum_list (map inGate ps)"
      using Cons.IH [of j] Cons.prems by simp
    then show ?thesis using Suc by simp
  qed
qed

lemma stats_onQueryStart: "stats (fst (snd (onQueryStart a w depth sz))) = stats a"
  by (simp add: onQueryStart_def Let_def)

lemma stats_onQueryEnd: "stats (fst (snd (onQueryEnd a depth sz))) = stats a"
  by (simp add: onQueryEnd_def Let_def)

lemma stats_onClose: "stats (fst (onClose a c)) = stats a"
  by (simp add: onClose_def Let_def)

lemma stats_awakeWaiters: "stats (fst (awakeWaiters a)) = stats a"
  by (simp add: awakeWaiters_def)

lemma locked_call_frame:
  assumes "locked_call s r = Some s'"
  shows "herder s' = fst r" and "inside s' = inside s"
  using assms by (auto simp: locked_call_def inside_def inGate_deliver split: if_splits)

text \<open>What one pass through the loop head, and one step of a gate caller, do to the counters.\<close>

lemma loop_delta:
  assumes "onBatchExecuteStart_loop a w = (p, a', es)"
  shows "inGate p = 1"
    and "TotOnBatchExecuteStartBeg (stats a') = TotOnBatchExecuteStartBeg (stats a)"
    and "TotOnBatchExecuteStartEnd (stats a') = TotOnBatchExecuteStartEnd (stats a)"
    and "TotWaitingOut (stats a') = TotWaitingOut (stats a)"
    and "\<exists>i. TotWaitingIn (stats a') = bump i (TotWaitingIn (stats a))"
proof -
  show "inGate p = 1"
    and "TotOnBatchExecuteStartBeg (stats a') = TotOnBatchExecuteStartBeg (stats a)"
    and "TotOnBatchExecuteStartEnd (stats a') = TotOnBatchExecuteStartEnd (stats a)"
    and "TotWaitingOut (stats a') = TotWaitingOut (stats a)"
    using assms by (auto simp: onBatchExecuteStart_loop_def split: if_splits)
  show "\<exists>i. TotWaitingIn (stats a') = bump i (TotWaitingIn (stats a))"
  proof (cases "overMemQuotaForIndexingLOCKED a w")
    case True
    then have "TotWaitingIn (stats a') = bump True (TotWaitingIn (stats a))"
      using assms by (auto simp: onBatchExecuteStart_loop_def bump_def)
    then show ?thesis ..
  next
    case False
    then have "TotWaitingIn (stats a') = bump False (TotWaitingIn (stats a))"
      using assms by (auto simp: onBatchExecuteStart_loop_def bump_def)
    then show ?thesis ..
  qed
qed

lemma step_delta:
  assumes "runs p" and "onBatchExecuteStart_step a w p = (p', a', es)"
  shows "\<exists>e i u.
           TotOnBatchExecuteStartBeg (stats a') = TotOnBatchExecuteStartBeg (stats a)
         \<and> TotOnBatchExecuteStartEnd (stats a') = bump e (TotOnBatchExecuteStartEnd (stats a))
         \<and> TotWaitingIn (stats a') = bump i (TotWaitingIn (stats a))
         \<and> TotWaitingOut (stats a') = bump u (TotWaitingOut (stats a))
         \<and> inGate p' + (if e then 1 else 0) = 1
         \<and> inGate p = 1"
proof (cases p)
  case (AtLock c f)
  obtain q b fs where l: "onBatchExecuteStart_loop (a\<lparr>indexes := AList.update c f (indexes a)\<rparr>) w
      = (q, b, fs)" by (cases "onBatchExecuteStart_loop (a\<lparr>indexes := AList.update c f (indexes a)\<rparr>) w")
  then have eq: "p' = q" "a' = b" using assms AtLock by simp_all
  from loop_delta(5) [OF l] obtain i where
    "TotWaitingIn (stats b) = bump i (TotWaitingIn (stats a))" by auto
  then show ?thesis
    using loop_delta(1-4) [OF l] eq AtLock
    by (intro exI [of _ False] exI [of _ i]) (simp add: bump_def)
next
  case AtSend
  then show ?thesis using assms
    by (intro exI [of _ False]) (auto simp: bump_def)
next
  case AtWait
  then show ?thesis using assms
    by (intro exI [of _ False]) (auto simp: bump_def)
next
  case InWait
  then show ?thesis using assms by simp
next
  case Notified
  let ?a1 = "a\<lparr>waiting := waiting a - 1,
                stats := (stats a)\<lparr>TotWaitingOut := TotWaitingOut (stats a) + 1\<rparr>\<rparr>"
  obtain q b fs where l: "onBatchExecuteStart_loop ?a1 w = (q, b, fs)"
    by (cases "onBatchExecuteStart_loop ?a1 w")
  then have eq: "p' = q" "a' = b" using assms Notified by simp_all
  from loop_delta(5) [OF l] obtain i where
    "TotWaitingIn (stats b) = bump i (TotWaitingIn (stats a))" by auto
  then show ?thesis
    using loop_delta(1-4) [OF l] eq Notified
    by (intro exI [of _ False] exI [of _ i] exI [of _ True]) (simp add: bump_def)
next
  case AtEnd
  then show ?thesis using assms
    by (intro exI [of _ True] exI [of _ False]) (auto simp: bump_def)
next
  case Out
  then show ?thesis using assms by simp
qed

lemma exec_delta:
  assumes "exec s act = Some s'"
  shows "\<exists>b e i u.
           TotOnBatchExecuteStartBeg (stats (herder s')) =
             bump b (TotOnBatchExecuteStartBeg (stats (herder s)))
         \<and> TotOnBatchExecuteStartEnd (stats (herder s')) =
             bump e (TotOnBatchExecuteStartEnd (stats (herder s)))
         \<and> TotWaitingIn (stats (herder s')) = bump i (TotWaitingIn (stats (herder s)))
         \<and> TotWaitingOut (stats (herder s')) = bump u (TotWaitingOut (stats (herder s)))
         \<and> inside s' + (if e then 1 else 0) = inside s + (if b then 1 else 0)
         \<and> (if e then 0 < inside s else True)"
proof (cases act)
  case (CallBatchExecuteStart c f)
  show ?thesis
  proof (cases "indexQuota (herder s) <s 0")
    case True
    then have "herder s' = herder s" "inside s' = inside s"
      using assms CallBatchExecuteStart
      by (auto simp: onBatchExecuteStart_entry_def inside_def)
    then show ?thesis
      by (intro exI [of _ False]) (simp add: bump_def)
  next
    case False
    then have "stats (herder s') = (stats (herder s))\<lparr>TotOnBatchExecuteStartBeg :=
                 TotOnBatchExecuteStartBeg (stats (herder s)) + 1\<rparr>" "inside s' = inside s + 1"
      using assms CallBatchExecuteStart
      by (auto simp: onBatchExecuteStart_entry_def inside_def)
    then show ?thesis
      by (intro exI [of _ True] exI [of _ False]) (simp add: bump_def)
  qed
next
  case (Advance k w)
  obtain p' a' es where st:
    "onBatchExecuteStart_step (herder s) w (workers s ! k) = (p', a', es)"
    by (cases "onBatchExecuteStart_step (herder s) w (workers s ! k)")
  have k: "k < length (workers s)" and r: "runs (workers s ! k)"
    and s': "herder s' = a'" "workers s' = (workers s)[k := p']"
    using assms Advance st by (auto split: if_splits)
  from step_delta [OF r st] obtain e i u where d:
    "TotOnBatchExecuteStartBeg (stats a') = TotOnBatchExecuteStartBeg (stats (herder s))"
    "TotOnBatchExecuteStartEnd (stats a') = bump e (TotOnBatchExecuteStartEnd (stats (herder s)))"
    "TotWaitingIn (stats a') = bump i (TotWaitingIn (stats (herder s)))"
    "TotWaitingOut (stats a') = bump u (TotWaitingOut (stats (herder s)))"
    "inGate p' + (if e then 1 else 0) = 1" "inGate (workers s ! k) = 1"
    by blast
  have "inside s' + inGate (workers s ! k) = inside s + inGate p'"
    using inGate_update [OF k, of p'] s' by (simp add: inside_def)
  then have n: "inside s' + (if e then 1 else 0) = inside s"
    using d(5,6) by (simp split: if_splits)
  have "0 < inside s"
    using inGate_pos [OF k] d(6) by (simp add: inside_def)
  then show ?thesis
    using d(1-4) n s'(1)
    by (intro exI [of _ False] exI [of _ e] exI [of _ i] exI [of _ u]) (simp add: bump_def)
next
  case (CallQueryStart depth sz w)
  then have "herder s' = fst (snd (onQueryStart (herder s) w depth sz))" "inside s' = inside s"
    using assms by (auto simp: inside_def inGate_deliver split: if_splits prod.splits)
  then show ?thesis
    by (intro exI [of _ False]) (simp add: bump_def stats_onQueryStart)
next
  case (CallQueryEnd depth sz)
  then have "locked_call s (snd (onQueryEnd (herder s) depth sz)) = Some s'"
    using assms by (simp split: prod.splits)
  then show ?thesis
    using locked_call_frame [of s "snd (onQueryEnd (herder s) depth sz)" s']
    by (intro exI [of _ False]) (simp add: bump_def stats_onQueryEnd)
next
  case (CallClose c)
  then show ?thesis
    using assms locked_call_frame [of s "onClose (herder s) c" s']
    by (intro exI [of _ False]) (simp add: bump_def stats_onClose)
next
  case (CallMemoryUsedDropped cur prev)
  then show ?thesis
    using assms locked_call_frame [of s "awakeWaiters (herder s)" s']
    by (intro exI [of _ False]) (simp add: bump_def stats_awakeWaiters onMemoryUsedDropped_def)
next
  case CallPersisterProgress
  then show ?thesis
    using assms locked_call_frame [of s "awakeWaiters (herder s)" s']
    by (intro exI [of _ False]) (simp add: bump_def stats_awakeWaiters onPersisterProgress_def)
next
  case CallMergerProgress
  then show ?thesis
    using assms locked_call_frame [of s "awakeWaiters (herder s)" s']
    by (intro exI [of _ False]) (simp add: bump_def stats_awakeWaiters onMergerProgress_def)
qed


lemma unat_bump:
  assumes "unat x < 2 ^ 64 - 1"
  shows "unat (bump b x) = unat x + (if b then 1 else 0)"
  using assms by (simp add: bump_def unat_word_ariths)

lemma tally_exec:
  assumes t: "tally n s" and n: "Suc n < 2 ^ 64" and x: "exec s act = Some s'"
  shows "tally (Suc n) s'"
    and "unat (TotWaitingIn (stats (herder s))) \<le> unat (TotWaitingIn (stats (herder s')))"
    and "unat (TotWaitingOut (stats (herder s))) \<le> unat (TotWaitingOut (stats (herder s')))"
    and "unat (TotOnBatchExecuteStartBeg (stats (herder s)))
           \<le> unat (TotOnBatchExecuteStartBeg (stats (herder s')))"
    and "unat (TotOnBatchExecuteStartEnd (stats (herder s)))
           \<le> unat (TotOnBatchExecuteStartEnd (stats (herder s')))"
proof -
  from exec_delta [OF x] obtain b e i u where d:
    "TotOnBatchExecuteStartBeg (stats (herder s')) =
       bump b (TotOnBatchExecuteStartBeg (stats (herder s)))"
    "TotOnBatchExecuteStartEnd (stats (herder s')) =
       bump e (TotOnBatchExecuteStartEnd (stats (herder s)))"
    "TotWaitingIn (stats (herder s')) = bump i (TotWaitingIn (stats (herder s)))"
    "TotWaitingOut (stats (herder s')) = bump u (TotWaitingOut (stats (herder s)))"
    "inside s' + (if e then 1 else 0) = inside s + (if b then 1 else 0)"
    "if e then 0 < inside s else True"
    by blast
  have small: "n < 2 ^ 64 - 1" using n by simp
  have beg: "unat (TotOnBatchExecuteStartBeg (stats (herder s))) < 2 ^ 64 - 1"
    and fin: "unat (TotOnBatchExecuteStartEnd (stats (herder s))) < 2 ^ 64 - 1"
    and win: "unat (TotWaitingIn (stats (herder s))) < 2 ^ 64 - 1"
    and wout: "unat (TotWaitingOut (stats (herder s))) < 2 ^ 64 - 1"
    using t small by (simp_all add: tally_def)
  note u = unat_bump [OF beg, of b] unat_bump [OF fin, of e] unat_bump [OF win, of i]
    unat_bump [OF wout, of u]
  show "tally (Suc n) s'"
    using t d(5,6) u unfolding tally_def d(1-4) by (simp split: if_splits)
  show "unat (TotWaitingIn (stats (herder s))) \<le> unat (TotWaitingIn (stats (herder s')))"
    and "unat (TotWaitingOut (stats (herder s))) \<le> unat (TotWaitingOut (stats (herder s')))"
    and "unat (TotOnBatchExecuteStartBeg (stats (herder s)))
           \<le> unat (TotOnBatchExecuteStartBeg (stats (herder s')))"
    and "unat (TotOnBatchExecuteStartEnd (stats (herder s)))
           \<le> unat (TotOnBatchExecuteStartEnd (stats (herder s')))"
    using u unfolding d(1-4) by simp_all
qed

lemma tally_run:
  assumes "tally n s" and "run s acts = Some s'" and "n + length acts < 2 ^ 64"
  shows "tally (n + length acts) s'"
  using assms
proof (induction acts arbitrary: n s)
  case Nil
  then show ?case by simp
next
  case (Cons x xs)
  from Cons.prems(2) obtain s1 where x: "exec s x = Some s1" and r: "run s1 xs = Some s'"
    by (auto split: option.splits)
  have "tally (Suc n) s1"
    using tally_exec(1) [OF Cons.prems(1) _ x] Cons.prems(3) by simp
  then show ?case
    using Cons.IH [OF _ r, of "Suc n"] Cons.prems(3) by simp
qed

lemma tally_boot: "tally 0 (boot (newAppHerder mq aq iq qq ch))"
  by (simp add: tally_def boot_def newAppHerder_def inside_def)

text \<open>
  Claim C9. Take any run of the goroutines from a herder fresh from \<open>newAppHerder\<close>, and
  any action after it (the counters are \<^verbatim>\<open>uint64\<close>: the run is shorter than \<open>2^64\<close>
  actions, so no counter has wrapped). The action decreases none of the four counters;
  before and after it \<open>TotOnBatchExecuteStartEnd \<le> TotOnBatchExecuteStartBeg\<close>; and the
  two are equal when no caller is inside the gate, and differ when one is.
\<close>

theorem stats_monotone:
  assumes "run (boot (newAppHerder mq aq iq qq ch)) acts = Some s"
    and "Suc (length acts) < 2 ^ 64"
    and "exec s act = Some s'"
  shows "TotWaitingIn (stats (herder s)) \<le> TotWaitingIn (stats (herder s'))
       \<and> TotWaitingOut (stats (herder s)) \<le> TotWaitingOut (stats (herder s'))
       \<and> TotOnBatchExecuteStartBeg (stats (herder s))
            \<le> TotOnBatchExecuteStartBeg (stats (herder s'))
       \<and> TotOnBatchExecuteStartEnd (stats (herder s))
            \<le> TotOnBatchExecuteStartEnd (stats (herder s'))
       \<and> TotOnBatchExecuteStartEnd (stats (herder s))
            \<le> TotOnBatchExecuteStartBeg (stats (herder s))
       \<and> TotOnBatchExecuteStartEnd (stats (herder s'))
            \<le> TotOnBatchExecuteStartBeg (stats (herder s'))
       \<and> (if inside s = 0
           then TotOnBatchExecuteStartEnd (stats (herder s))
                  = TotOnBatchExecuteStartBeg (stats (herder s))
           else TotOnBatchExecuteStartEnd (stats (herder s))
                  < TotOnBatchExecuteStartBeg (stats (herder s)))"
proof -
  have t: "tally (length acts) s"
    using tally_run [OF tally_boot assms(1)] assms(2) by simp
  have t': "tally (Suc (length acts)) s'"
    by (rule tally_exec(1) [OF t assms(2,3)])
  show ?thesis
    using tally_exec(2-5) [OF t assms(2,3)] t t'
    by (auto simp: word_le_nat_alt word_less_nat_alt tally_def word_unat_eq_iff)
qed

text \<open>
  Two runs under the claim: in scenario S3 a caller is parked inside the gate when the
  persister reports progress, and the end counter is behind; with process memory 50 the
  caller has left the gate when the next one arrives, and the two counters agree.
\<close>

theorem stats_monotone_witness:
  "run (boot (newAppHerder 1000 1000 100 500 True))
     [CallBatchExecuteStart 7 engineBytes, Advance 0 (steady 150 200),
      Advance 0 (steady 150 200), Advance 0 (steady 150 200)]
     = Some \<lparr>herder = (newAppHerder 1000 1000 100 500 True)
                \<lparr>waiting := 1, indexes := [(7, engineBytes)],
                 stats := \<lparr>TotWaitingIn = 1, TotWaitingOut = 0,
                           TotOnBatchExecuteStartBeg = 1, TotOnBatchExecuteStartEnd = 0\<rparr>\<rparr>,
              mutex = False, workers = [InWait]\<rparr>
   \<and> exec \<lparr>herder = (newAppHerder 1000 1000 100 500 True)
                \<lparr>waiting := 1, indexes := [(7, engineBytes)],
                 stats := \<lparr>TotWaitingIn = 1, TotWaitingOut = 0,
                           TotOnBatchExecuteStartBeg = 1, TotOnBatchExecuteStartEnd = 0\<rparr>\<rparr>,
              mutex = False, workers = [InWait]\<rparr> CallPersisterProgress
     = Some \<lparr>herder = (newAppHerder 1000 1000 100 500 True)
                \<lparr>waiting := 1, indexes := [(7, engineBytes)],
                 stats := \<lparr>TotWaitingIn = 1, TotWaitingOut = 0,
                           TotOnBatchExecuteStartBeg = 1, TotOnBatchExecuteStartEnd = 0\<rparr>\<rparr>,
              mutex = False, workers = [Notified]\<rparr>
   \<and> inside \<lparr>herder = (newAppHerder 1000 1000 100 500 True)
                \<lparr>waiting := 1, indexes := [(7, engineBytes)],
                 stats := \<lparr>TotWaitingIn = 1, TotWaitingOut = 0,
                           TotOnBatchExecuteStartBeg = 1, TotOnBatchExecuteStartEnd = 0\<rparr>\<rparr>,
              mutex = False, workers = [InWait]\<rparr> = 1
   \<and> run (boot (newAppHerder 1000 1000 100 500 True))
       [CallBatchExecuteStart 7 engineBytes, Advance 0 (steady 50 200), Advance 0 (steady 50 200)]
     = Some \<lparr>herder = (newAppHerder 1000 1000 100 500 True)
                \<lparr>indexes := [(7, engineBytes)],
                 stats := \<lparr>TotWaitingIn = 0, TotWaitingOut = 0,
                           TotOnBatchExecuteStartBeg = 1, TotOnBatchExecuteStartEnd = 1\<rparr>\<rparr>,
              mutex = False, workers = [Out]\<rparr>
   \<and> exec \<lparr>herder = (newAppHerder 1000 1000 100 500 True)
                \<lparr>indexes := [(7, engineBytes)],
                 stats := \<lparr>TotWaitingIn = 0, TotWaitingOut = 0,
                           TotOnBatchExecuteStartBeg = 1, TotOnBatchExecuteStartEnd = 1\<rparr>\<rparr>,
              mutex = False, workers = [Out]\<rparr> (CallBatchExecuteStart 8 engineBytes)
     = Some \<lparr>herder = (newAppHerder 1000 1000 100 500 True)
                \<lparr>indexes := [(7, engineBytes)],
                 stats := \<lparr>TotWaitingIn = 0, TotWaitingOut = 0,
                           TotOnBatchExecuteStartBeg = 2, TotOnBatchExecuteStartEnd = 1\<rparr>\<rparr>,
              mutex = False, workers = [Out, AtLock 8 engineBytes]\<rparr>
   \<and> inside \<lparr>herder = (newAppHerder 1000 1000 100 500 True)
                \<lparr>indexes := [(7, engineBytes)],
                 stats := \<lparr>TotWaitingIn = 0, TotWaitingOut = 0,
                           TotOnBatchExecuteStartBeg = 1, TotOnBatchExecuteStartEnd = 1\<rparr>\<rparr>,
              mutex = False, workers = [Out]\<rparr> = 0"
proof -
  let ?H = "newAppHerder 1000 1000 100 500 True"
  let ?A = "[CallBatchExecuteStart 7 engineBytes, Advance 0 (steady 150 200),
      Advance 0 (steady 150 200), Advance 0 (steady 150 200)]"
  let ?SA = "\<lparr>herder = ?H\<lparr>waiting := 1, indexes := [(7, engineBytes)],
                 stats := \<lparr>TotWaitingIn = 1, TotWaitingOut = 0,
                           TotOnBatchExecuteStartBeg = 1, TotOnBatchExecuteStartEnd = 0\<rparr>\<rparr>,
              mutex = False, workers = [InWait]\<rparr>"
  let ?B = "[CallBatchExecuteStart 7 engineBytes, Advance 0 (steady 50 200),
      Advance 0 (steady 50 200)]"
  let ?SB = "\<lparr>herder = ?H\<lparr>indexes := [(7, engineBytes)],
                 stats := \<lparr>TotWaitingIn = 0, TotWaitingOut = 0,
                           TotOnBatchExecuteStartBeg = 1, TotOnBatchExecuteStartEnd = 1\<rparr>\<rparr>,
              mutex = False, workers = [Out]\<rparr>"
  have ra: "run (boot ?H) ?A = Some ?SA"
    by (simp add: gate_defs mem_defs newAppHerder_def steady_def boot_def word_sless_alt)
  have xa: "exec ?SA CallPersisterProgress = Some (?SA\<lparr>workers := [Notified]\<rparr>)"
    by (simp add: onPersisterProgress_def awakeWaiters_def awakeWaitersLOCKED_def
        locked_call_def deliver_def newAppHerder_def)
  have rb: "run (boot ?H) ?B = Some ?SB"
    by (simp add: gate_defs mem_defs newAppHerder_def steady_def boot_def word_sless_alt)
  have xb: "exec ?SB (CallBatchExecuteStart 8 engineBytes) =
      Some \<lparr>herder = ?H\<lparr>indexes := [(7, engineBytes)],
                 stats := \<lparr>TotWaitingIn = 0, TotWaitingOut = 0,
                           TotOnBatchExecuteStartBeg = 2, TotOnBatchExecuteStartEnd = 1\<rparr>\<rparr>,
              mutex = False, workers = [Out, AtLock 8 engineBytes]\<rparr>"
    by (simp add: gate_defs newAppHerder_def word_sless_alt)
  have la: "Suc (length ?A) < 2 ^ 64" and lb: "Suc (length ?B) < 2 ^ 64"
    by simp_all
  show ?thesis
    using ra xa rb xb stats_monotone [OF ra la xa] stats_monotone [OF rb lb xb]
    by (simp add: inside_def)
qed

section \<open>The wait counter\<close>

lemma queued_deliver: "map queued (deliver es ps) = map queued ps"
proof -
  have "queued (notify p) = queued p" for p
    by (cases p) simp_all
  then show ?thesis
    by (simp add: deliver_def)
qed

lemma queued_update:
  "i < length ps \<Longrightarrow>
     sum_list (map queued (ps[i := p])) + queued (ps ! i) = sum_list (map queued ps) + queued p"
proof (induction ps arbitrary: i)
  case Nil
  then show ?case by simp
next
  case (Cons q ps)
  then show ?case by (cases i) auto
qed

lemma loop_waiting:
  assumes "onBatchExecuteStart_loop a w = (p, a', es)"
  shows "waiting a' = waiting a + int (queued p)"
  using assms by (auto simp: onBatchExecuteStart_loop_def split: if_splits)

lemma step_waiting:
  assumes "runs p" and "onBatchExecuteStart_step a w p = (p', a', es)"
  shows "waiting a' + int (queued p) = waiting a + int (queued p')"
proof (cases p)
  case (AtLock c f)
  then show ?thesis
    using assms loop_waiting [of "a\<lparr>indexes := AList.update c f (indexes a)\<rparr>" w]
    by (auto split: prod.splits)
next
  case Notified
  then show ?thesis
    using assms
      loop_waiting [of "a\<lparr>waiting := waiting a - 1,
                stats := (stats a)\<lparr>TotWaitingOut := TotWaitingOut (stats a) + 1\<rparr>\<rparr>" w]
    by (auto split: prod.splits)
qed (insert assms, auto)

lemma locked_call_waiting:
  assumes "locked_call s r = Some s'" and "waiting (fst r) = waiting (herder s)"
  shows "waiting (herder s') = waiting (herder s)"
    and "map queued (workers s') = map queued (workers s)"
  using assms by (auto simp: locked_call_def queued_deliver split: if_splits)

lemma exec_waiting:
  assumes "waiting (herder s) = int (sum_list (map queued (workers s)))"
    and "exec s act = Some s'"
  shows "waiting (herder s') = int (sum_list (map queued (workers s')))"
proof (cases act)
  case (CallBatchExecuteStart c f)
  then show ?thesis
    using assms by (auto simp: onBatchExecuteStart_entry_def split: if_splits)
next
  case (Advance k w)
  obtain p' a' es where st:
    "onBatchExecuteStart_step (herder s) w (workers s ! k) = (p', a', es)"
    by (cases "onBatchExecuteStart_step (herder s) w (workers s ! k)")
  have k: "k < length (workers s)" and r: "runs (workers s ! k)"
    and s': "herder s' = a'" "workers s' = (workers s)[k := p']"
    using assms(2) Advance st by (auto split: if_splits)
  show ?thesis
    using step_waiting [OF r st] queued_update [OF k, of p'] assms(1) s' by simp
next
  case (CallQueryStart depth sz w)
  obtain r a' es where q: "onQueryStart (herder s) w depth sz = (r, a', es)"
    by (cases "onQueryStart (herder s) w depth sz")
  then have "s' = s\<lparr>herder := a', workers := deliver es (workers s)\<rparr>"
    using assms(2) CallQueryStart by (simp split: if_splits)
  moreover have "waiting a' = waiting (herder s)"
    using q by (auto simp: onQueryStart_def Let_def split: if_splits)
  ultimately show ?thesis
    using assms(1) by (simp add: queued_deliver)
next
  case (CallQueryEnd depth sz)
  then have "locked_call s (snd (onQueryEnd (herder s) depth sz)) = Some s'"
    using assms(2) by (simp split: prod.splits)
  from locked_call_waiting [OF this] show ?thesis
    using assms(1) by (simp add: onQueryEnd_def Let_def)
next
  case (CallClose c)
  then have "locked_call s (onClose (herder s) c) = Some s'"
    using assms(2) by simp
  from locked_call_waiting [OF this] show ?thesis
    using assms(1) by (simp add: onClose_def Let_def)
next
  case (CallMemoryUsedDropped cur prev)
  then have "locked_call s (awakeWaiters (herder s)) = Some s'"
    using assms(2) by (simp add: onMemoryUsedDropped_def)
  from locked_call_waiting [OF this] show ?thesis
    using assms(1) by (simp add: awakeWaiters_def)
next
  case CallPersisterProgress
  then have "locked_call s (awakeWaiters (herder s)) = Some s'"
    using assms(2) by (simp add: onPersisterProgress_def)
  from locked_call_waiting [OF this] show ?thesis
    using assms(1) by (simp add: awakeWaiters_def)
next
  case CallMergerProgress
  then have "locked_call s (awakeWaiters (herder s)) = Some s'"
    using assms(2) by (simp add: onMergerProgress_def)
  from locked_call_waiting [OF this] show ?thesis
    using assms(1) by (simp add: awakeWaiters_def)
qed

lemma run_waiting:
  assumes "waiting (herder s) = int (sum_list (map queued (workers s)))"
    and "run s acts = Some s'"
  shows "waiting (herder s') = int (sum_list (map queued (workers s')))"
  using assms
proof (induction acts arbitrary: s)
  case Nil
  then show ?case by simp
next
  case (Cons x xs)
  from Cons.prems(2) obtain s1 where x: "exec s x = Some s1" and r: "run s1 xs = Some s'"
    by (auto split: option.splits)
  show ?case by (rule Cons.IH [OF exec_waiting [OF Cons.prems(1) x] r])
qed

text \<open>
  In every state the goroutines can reach from a fresh herder, \<open>waiting\<close> is the number
  of gate callers between lines 150 and 163, so it is never negative.
\<close>

lemma waiting_counts_queued:
  assumes "run (boot (newAppHerder mq aq iq qq ch)) acts = Some s"
  shows "waiting (herder s) = int (sum_list (map queued (workers s)))"
    and "0 \<le> waiting (herder s)"
proof -
  show "waiting (herder s) = int (sum_list (map queued (workers s)))"
    by (rule run_waiting [OF _ assms]) (simp add: boot_def newAppHerder_def)
  then show "0 \<le> waiting (herder s)" by simp
qed

section \<open>Scenarios of the specification\<close>

text \<open>
  S3: a caller parks over quota; the engine drains to 0 bytes, the persister reports
  progress, the caller wakes, finds the indexing memory 0 and returns.
\<close>

lemma scenario_gate_then_release:
  "run (boot (newAppHerder 1000 1000 100 500 True))
     [CallBatchExecuteStart 7 engineBytes, Advance 0 (steady 150 200),
      Advance 0 (steady 150 200), Advance 0 (steady 150 200),
      CallPersisterProgress, Advance 0 (steady 150 0), Advance 0 (steady 150 0)]
   = Some \<lparr>herder = (newAppHerder 1000 1000 100 500 True)
              \<lparr>indexes := [(7, engineBytes)],
               stats := \<lparr>TotWaitingIn = 1, TotWaitingOut = 1,
                         TotOnBatchExecuteStartBeg = 1, TotOnBatchExecuteStartEnd = 1\<rparr>\<rparr>,
            mutex = False, workers = [Out]\<rparr>"
  by (simp add: gate_defs mem_defs newAppHerder_def steady_def boot_def word_sless_alt
      onPersisterProgress_def awakeWaiters_def awakeWaitersLOCKED_def locked_call_def
      deliver_def)

text \<open>
  S5: a caller parks with its engine the only one registered; \<open>onClose\<close> removes the
  engine and broadcasts; the caller wakes, registers nothing anew, finds the registry
  empty and returns.
\<close>

lemma scenario_close_releases:
  "run (boot (newAppHerder 1000 1000 100 500 False))
     [CallBatchExecuteStart 7 engineBytes, Advance 0 (steady 150 200),
      Advance 0 (steady 150 200), CallClose 7,
      Advance 0 (steady 150 200), Advance 0 (steady 150 200)]
   = Some \<lparr>herder = (newAppHerder 1000 1000 100 500 False)
              \<lparr>stats := \<lparr>TotWaitingIn = 1, TotWaitingOut = 1,
                         TotOnBatchExecuteStartBeg = 1, TotOnBatchExecuteStartEnd = 1\<rparr>\<rparr>,
            mutex = False, workers = [Out]\<rparr>"
  by (simp add: gate_defs mem_defs newAppHerder_def steady_def boot_def word_sless_alt
      onClose_def awakeWaitersLOCKED_def locked_call_def deliver_def Let_def)

text \<open>A parked caller takes no step until a broadcast reaches it.\<close>

lemma parked_stays_parked:
  "exec \<lparr>herder = a, mutex = m, workers = [InWait]\<rparr> (Advance 0 w) = None"
  by simp

section \<open>Negative quotas\<close>

lemma deliver_Out: "set ps \<subseteq> {Out} \<Longrightarrow> set (deliver es ps) \<subseteq> {Out}"
  by (induction ps) (auto simp: deliver_def)

lemma locked_call_idle:
  assumes "idle s" and "locked_call s r = Some s'"
    and "indexQuota (fst r) = indexQuota (herder s)" and "indexes (fst r) = []"
    and "stats (fst r) = stats (herder s)"
  shows "idle s'"
  using assms deliver_Out [of "workers s" "snd r"]
  by (auto simp: idle_def locked_call_def split: if_splits)

lemma idle_exec:
  assumes "idle s" and "exec s act = Some s'"
  shows "idle s'"
proof -
  have e: "indexes (herder s) = []"
    using assms(1) by (simp add: idle_def)
  show ?thesis
  proof (cases act)
  case (CallBatchExecuteStart c f)
  then show ?thesis
    using assms by (auto simp: idle_def onBatchExecuteStart_entry_def)
next
  case (Advance k w)
  then have "k < length (workers s)" and "runs (workers s ! k)"
    using assms(2) by (auto split: if_splits)
  moreover have "workers s ! k \<in> set (workers s)"
    using \<open>k < length (workers s)\<close> by (rule nth_mem)
  then have "workers s ! k = Out"
    using assms(1) unfolding idle_def by blast
  ultimately show ?thesis by simp
next
  case (CallQueryStart depth sz w)
  obtain r a' es where q: "onQueryStart (herder s) w depth sz = (r, a', es)"
    by (cases "onQueryStart (herder s) w depth sz")
  then have s': "s' = s\<lparr>herder := a', workers := deliver es (workers s)\<rparr>"
    using assms(2) CallQueryStart by (simp split: if_splits)
  have "indexQuota a' = indexQuota (herder s)" "indexes a' = indexes (herder s)"
    "stats a' = stats (herder s)"
    using q by (auto simp: onQueryStart_def Let_def split: if_splits)
  then show ?thesis
    using assms(1) deliver_Out [of "workers s" es] by (simp add: idle_def s')
next
  case (CallQueryEnd depth sz)
  then have "locked_call s (snd (onQueryEnd (herder s) depth sz)) = Some s'"
    using assms(2) by (simp split: prod.splits)
  then show ?thesis
    by (rule locked_call_idle [OF assms(1)])
      (simp_all add: onQueryEnd_def Let_def e)
next
  case (CallClose c)
  then have "locked_call s (onClose (herder s) c) = Some s'"
    using assms(2) by simp
  then show ?thesis
    by (rule locked_call_idle [OF assms(1)])
      (simp_all add: onClose_def Let_def e)
next
  case (CallMemoryUsedDropped cur prev)
  then have "locked_call s (awakeWaiters (herder s)) = Some s'"
    using assms(2) by (simp add: onMemoryUsedDropped_def)
  then show ?thesis
    by (rule locked_call_idle [OF assms(1)])
      (simp_all add: awakeWaiters_def e)
next
  case CallPersisterProgress
  then have "locked_call s (awakeWaiters (herder s)) = Some s'"
    using assms(2) by (simp add: onPersisterProgress_def)
  then show ?thesis
    by (rule locked_call_idle [OF assms(1)])
      (simp_all add: awakeWaiters_def e)
next
  case CallMergerProgress
  then have "locked_call s (awakeWaiters (herder s)) = Some s'"
    using assms(2) by (simp add: onMergerProgress_def)
  then show ?thesis
    by (rule locked_call_idle [OF assms(1)])
      (simp_all add: awakeWaiters_def e)
  qed
qed

lemma idle_run:
  assumes "idle s" and "run s acts = Some s'"
  shows "idle s'"
  using assms
proof (induction acts arbitrary: s)
  case Nil
  then show ?case by simp
next
  case (Cons x xs)
  from Cons.prems(2) obtain s1 where x: "exec s x = Some s1" and r: "run s1 xs = Some s'"
    by (auto split: option.splits)
  show ?case by (rule Cons.IH [OF idle_exec [OF Cons.prems(1) x] r])
qed

text \<open>
  Claim C10. With \<open>indexQuota < 0\<close>, \<open>onBatchExecuteStart\<close> leaves the whole herder as
  it was: the handle is not registered, so a later \<open>onClose\<close> of a handle that was not
  there removes nothing; \<open>runningQueryUsed\<close> and \<open>waiting\<close> are untouched and no counter
  moves. In any run from a fresh herder with a negative \<open>indexQuota\<close> the registry stays
  empty, the indexing memory stays 0 and the counters stay as \<open>newAppHerder\<close> left them.
  With \<open>queryQuota < 0\<close>, \<open>onQueryStart\<close> admits without touching the herder, while
  \<open>onQueryEnd\<close> subtracts the size whatever the quotas are.
\<close>

theorem negative_quota_frame:
  "(indexQuota a <s 0 \<longrightarrow>
      onBatchExecuteStart a w c s = (Out, a, [])
      \<and> (c \<notin> fst ` set (indexes a) \<longrightarrow>
           fst (onClose (fst (snd (onBatchExecuteStart a w c s))) c) = a))
   \<and> (iq <s 0 \<and> run (boot (newAppHerder mq aq iq qq ch)) acts = Some t \<longrightarrow>
        indexes (herder t) = [] \<and> indexingMemoryLOCKED (herder t) w = 0
        \<and> stats (herder t) = stats (newAppHerder mq aq iq qq ch))
   \<and> (queryQuota a <s 0 \<longrightarrow> onQueryStart a w depth sz = (None, a, []))
   \<and> runningQueryUsed (fst (snd (onQueryEnd a depth sz))) = runningQueryUsed a - sz"
proof -
  have "idle t" if "iq <s 0" and "run (boot (newAppHerder mq aq iq qq ch)) acts = Some t"
  proof (rule idle_run [OF _ that(2)])
    show "idle (boot (newAppHerder mq aq iq qq ch))"
      using that(1) by (simp add: idle_def boot_def newAppHerder_def)
  qed
  then have "iq <s 0 \<and> run (boot (newAppHerder mq aq iq qq ch)) acts = Some t \<longrightarrow>
        indexes (herder t) = [] \<and> indexingMemoryLOCKED (herder t) w = 0
        \<and> stats (herder t) = stats (newAppHerder mq aq iq qq ch)"
    by (auto simp: idle_def indexingMemoryLOCKED_def newAppHerder_def)
  moreover have "indexQuota a <s 0 \<longrightarrow>
      onBatchExecuteStart a w c s = (Out, a, [])
      \<and> (c \<notin> fst ` set (indexes a) \<longrightarrow>
           fst (onClose (fst (snd (onBatchExecuteStart a w c s))) c) = a)"
    by (simp add: gate_defs onClose_def Let_def)
  moreover have "queryQuota a <s 0 \<longrightarrow> onQueryStart a w depth sz = (None, a, [])"
    by (simp add: onQueryStart_def)
  moreover have "runningQueryUsed (fst (snd (onQueryEnd a depth sz))) = runningQueryUsed a - sz"
    by (simp add: onQueryEnd_def Let_def)
  ultimately show ?thesis by blast
qed

theorem negative_quota_frame_witness:
  "indexQuota (newAppHerder 1000000000 1000000000 (- 1000000000) (- 1) True) <s 0
   \<and> 7 \<notin> fst ` set (indexes (newAppHerder 1000000000 1000000000 (- 1000000000) (- 1) True))
   \<and> onBatchExecuteStart (newAppHerder 1000000000 1000000000 (- 1000000000) (- 1) True)
        (steady 10000000000 200) 7 engineBytes
      = (Out, newAppHerder 1000000000 1000000000 (- 1000000000) (- 1) True, [])
   \<and> fst (onClose (newAppHerder 1000000000 1000000000 (- 1000000000) (- 1) True) 7)
      = newAppHerder 1000000000 1000000000 (- 1000000000) (- 1) True
   \<and> run (boot (newAppHerder 1000000000 1000000000 (- 1000000000) (- 1) True))
        [CallBatchExecuteStart 7 engineBytes, CallClose 7]
      = Some \<lparr>herder = newAppHerder 1000000000 1000000000 (- 1000000000) (- 1) True,
               mutex = False, workers = [Out]\<rparr>
   \<and> indexingMemoryLOCKED (newAppHerder 1000000000 1000000000 (- 1000000000) (- 1) True)
        (steady 10000000000 200) = 0
   \<and> queryQuota (newAppHerder 1000000000 1000000000 (- 1000000000) (- 1) True) <s 0
   \<and> onQueryStart (newAppHerder 1000000000 1000000000 (- 1000000000) (- 1) True)
        (steady 10000000000 200) 0 100
      = (None, newAppHerder 1000000000 1000000000 (- 1000000000) (- 1) True, [])
   \<and> runningQueryUsed (fst (snd
         (onQueryEnd (newAppHerder 1000000000 1000000000 (- 1000000000) (- 1) True) 0 100)))
      = 18446744073709551516"
proof -
  let ?H = "newAppHerder 1000000000 1000000000 (- 1000000000) (- 1) True"
  let ?w = "steady 10000000000 200"
  let ?t = "\<lparr>herder = ?H, mutex = False, workers = [Out]\<rparr>"
  have r: "run (boot ?H) [CallBatchExecuteStart 7 engineBytes, CallClose 7] = Some ?t"
    by (simp add: onBatchExecuteStart_entry_def onClose_def locked_call_def deliver_def
        awakeWaitersLOCKED_def Let_def newAppHerder_def boot_def word_sless_alt)
  have i: "indexQuota ?H <s 0" and q: "queryQuota ?H <s 0"
    and n: "(- 1000000000 :: u64) <s 0" and k: "7 \<notin> fst ` set (indexes ?H)"
    by (simp_all add: newAppHerder_def word_sless_alt)
  note f = negative_quota_frame
      [where a = "?H" and w = "?w" and c = 7 and s = engineBytes
         and iq = "- 1000000000" and mq = 1000000000 and aq = 1000000000 and qq = "- 1"
         and ch = True and acts = "[CallBatchExecuteStart 7 engineBytes, CallClose 7]"
         and t = "?t" and depth = 0 and sz = 100]
  have b: "onBatchExecuteStart ?H ?w 7 engineBytes = (Out, ?H, [])"
    using f i by blast
  have "fst (onClose (fst (snd (onBatchExecuteStart ?H ?w 7 engineBytes))) 7) = ?H"
    using f i k by blast
  then have c: "fst (onClose ?H 7) = ?H"
    by (simp add: b)
  have "indexingMemoryLOCKED (herder ?t) ?w = 0"
    using f n r by blast
  then have m: "indexingMemoryLOCKED ?H ?w = 0"
    by simp
  have s: "onQueryStart ?H ?w 0 100 = (None, ?H, [])"
    using f q by blast
  have "runningQueryUsed (fst (snd (onQueryEnd ?H 0 100))) = runningQueryUsed ?H - 100"
    using f by blast
  then have e: "runningQueryUsed (fst (snd (onQueryEnd ?H 0 100))) = 18446744073709551516"
    by (simp add: newAppHerder_def)
  show ?thesis
    using i k b c r m q s e by blast
qed

end
